theory Spec2Isabelle
  imports Main
begin

section \<open>Chunk boundaries of a file: the model of \<open>find_chunk_boundaries\<close>\<close>

text \<open>
  The source is \<^verbatim>\<open>cs336_basics/pretokenization_example.py\<close>. Its one function,
  \<^verbatim>\<open>find_chunk_boundaries(file, desired_num_chunks, split_special_token)\<close>, works on a
  binary file handle through \<^verbatim>\<open>seek\<close>, \<^verbatim>\<open>tell\<close> and \<^verbatim>\<open>read\<close>. The handle is modelled as a
  record passed through every call; Python's integers are \<open>int\<close>; exceptions are values.
\<close>

subsection \<open>Values, errors and the file handle\<close>

type_synonym bytes = "char list"

text \<open>The exceptions the function can raise: the \<^verbatim>\<open>assert\<close> of line 20, the division of
  line 42, the index \<^verbatim>\<open>[-1]\<close> of line 49 on an empty list, and a seek to a negative offset.\<close>

datatype error = AssertionError | ZeroDivisionError | IndexError | OSError

text \<open>What a caller can pass as \<^verbatim>\<open>split_special_token\<close>: Python does not enforce the
  annotation, so the \<^verbatim>\<open>isinstance\<close> check of line 20 decides.\<close>

datatype py_value = PyBytes bytes | PyStr string | PyInt int | PyNone

text \<open>\<^verbatim>\<open>isinstance(split_special_token, bytes)\<close>\<close>

fun isinstance_bytes :: "py_value \<Rightarrow> bool" where
  "isinstance_bytes (PyBytes b) = True"
| "isinstance_bytes v = False"

text \<open>Every call on the handle is recorded, so that "no I/O was performed" can be stated.\<close>

datatype io_event = SeekSet int | SeekEnd int | Tell | Read nat

record binary_io =
  content :: bytes
  pos :: nat
  events :: "io_event list"

text \<open>\<^verbatim>\<open>file.seek(0, os.SEEK_END)\<close>\<close>

definition file_seek_end :: "binary_io \<Rightarrow> binary_io" where
  "file_seek_end f = f\<lparr>pos := length (content f), events := events f @ [SeekEnd 0]\<rparr>"

text \<open>\<^verbatim>\<open>file.tell()\<close>\<close>

definition file_tell :: "binary_io \<Rightarrow> int \<times> binary_io" where
  "file_tell f = (int (pos f), f\<lparr>events := events f @ [Tell]\<rparr>)"

text \<open>\<^verbatim>\<open>file.seek(offset)\<close>: a negative offset raises and leaves the handle as it was; an
  offset past the end is accepted (a later read returns nothing).\<close>

definition file_seek :: "binary_io \<Rightarrow> int \<Rightarrow> error + binary_io" where
  "file_seek f offset =
     (if offset < 0 then Inl OSError
      else Inr (f\<lparr>pos := nat offset, events := events f @ [SeekSet offset]\<rparr>))"

text \<open>\<^verbatim>\<open>file.read(n)\<close>: at most \<open>n\<close> bytes from the current position, which advances by the
  number of bytes returned; the empty byte string at end of file.\<close>

definition file_read :: "binary_io \<Rightarrow> nat \<Rightarrow> bytes \<times> binary_io" where
  "file_read f n =
     (let data = take n (drop (pos f) (content f))
      in (data, f\<lparr>pos := pos f + length data, events := events f @ [Read n]\<rparr>))"

subsection \<open>\<^verbatim>\<open>bytes.find\<close>\<close>

text \<open>\<^verbatim>\<open>s.find(sub)\<close>: the lowest index at which \<open>sub\<close> starts in \<open>s\<close>, and \<open>-1\<close> when there
  is none. The empty \<open>sub\<close> is found at index 0, also in the empty \<open>s\<close>.\<close>

fun find_from :: "bytes \<Rightarrow> bytes \<Rightarrow> nat \<Rightarrow> int" where
  "find_from sub [] i = (if sub = [] then int i else - 1)"
| "find_from sub (x # xs) i =
     (if take (length sub) (x # xs) = sub then int i else find_from sub xs (Suc i))"

definition bytes_find :: "bytes \<Rightarrow> bytes \<Rightarrow> int" where
  "bytes_find s sub = find_from sub s 0"

subsection \<open>The function\<close>

definition mini_chunk_size :: nat where
  "mini_chunk_size = 4096"

text \<open>Lines 42 to 49: the evenly spaced guesses, the last one forced to the file size.
  \<^verbatim>\<open>range(desired_num_chunks + 1)\<close> is \<open>[0..desired_num_chunks]\<close>; it is empty for a negative
  count, and then \<^verbatim>\<open>chunk_boundaries[-1] = file_size\<close> raises.\<close>

definition initial_boundaries :: "int \<Rightarrow> int \<Rightarrow> error + int list" where
  "initial_boundaries file_size desired_num_chunks =
     (if desired_num_chunks = 0 then Inl ZeroDivisionError
      else
        let chunk_size = file_size div desired_num_chunks;
            chunk_boundaries = map (\<lambda>i. i * chunk_size) [0..desired_num_chunks]
        in if chunk_boundaries = [] then Inl IndexError
           else Inr (chunk_boundaries[length chunk_boundaries - 1 := file_size]))"

text \<open>Lines 64 to 87, the \<^verbatim>\<open>while True\<close> loop for the boundary of index \<open>bi\<close>: read a window,
  stop at end of file or at the first window that holds the token, else move the
  position by a whole window. The loop is entered with \<open>bi\<close> inside the list.\<close>

function scan :: "bytes \<Rightarrow> int \<Rightarrow> nat \<Rightarrow> binary_io \<Rightarrow> int \<Rightarrow> int list \<Rightarrow> int list \<times> binary_io" where
  "scan split_special_token file_size bi f initial_position chunk_boundaries =
     (case file_read f mini_chunk_size of
        (mini_chunk, f') \<Rightarrow>
          if mini_chunk = [] then (chunk_boundaries[bi := file_size], f')
          else
            let found_at = bytes_find mini_chunk split_special_token
            in if found_at \<noteq> - 1
               then (chunk_boundaries[bi := initial_position + found_at], f')
               else scan split_special_token file_size bi f'
                      (initial_position + int mini_chunk_size) chunk_boundaries)"
  by pat_completeness auto
termination
proof (relation "measure (\<lambda>(t, s, bi, f, p, cbs). length (content f) - pos f)")
qed (auto simp: file_read_def Let_def split: if_splits)

text \<open>Lines 61 to 63, the \<^verbatim>\<open>for bi in range(1, len(chunk_boundaries) - 1)\<close> loop over the
  indices still to do.\<close>

fun adjust :: "bytes \<Rightarrow> int \<Rightarrow> nat list \<Rightarrow> binary_io \<Rightarrow> int list \<Rightarrow> (error + int list) \<times> binary_io" where
  "adjust split_special_token file_size [] f chunk_boundaries = (Inr chunk_boundaries, f)"
| "adjust split_special_token file_size (bi # bis) f chunk_boundaries =
     (let initial_position = chunk_boundaries ! bi
      in case file_seek f initial_position of
           Inl e \<Rightarrow> (Inl e, f)
         | Inr f1 \<Rightarrow>
             (case scan split_special_token file_size bi f1 initial_position chunk_boundaries of
                (chunk_boundaries', f2) \<Rightarrow>
                  adjust split_special_token file_size bis f2 chunk_boundaries'))"

text \<open>Lines 20 to 87: the list \<^verbatim>\<open>chunk_boundaries\<close> as it stands before the last line.\<close>

definition adjusted_boundaries :: "binary_io \<Rightarrow> int \<Rightarrow> py_value \<Rightarrow> (error + int list) \<times> binary_io" where
  "adjusted_boundaries f desired_num_chunks tok =
     (case tok of
        PyBytes split_special_token \<Rightarrow>
          (case file_tell (file_seek_end f) of
             (file_size, f2) \<Rightarrow>
               (case file_seek f2 0 of
                  Inl e \<Rightarrow> (Inl e, f2)
                | Inr f3 \<Rightarrow>
                    (case initial_boundaries file_size desired_num_chunks of
                       Inl e \<Rightarrow> (Inl e, f3)
                     | Inr chunk_boundaries \<Rightarrow>
                         adjust split_special_token file_size
                           [1 ..< length chunk_boundaries - 1] f3 chunk_boundaries)))
      | _ \<Rightarrow> (Inl AssertionError, f))"

text \<open>Line 100: \<^verbatim>\<open>return sorted(set(chunk_boundaries))\<close>.\<close>

definition find_chunk_boundaries :: "binary_io \<Rightarrow> int \<Rightarrow> py_value \<Rightarrow> (error + int list) \<times> binary_io" where
  "find_chunk_boundaries f desired_num_chunks tok =
     (case adjusted_boundaries f desired_num_chunks tok of
        (Inl e, f') \<Rightarrow> (Inl e, f')
      | (Inr chunk_boundaries, f') \<Rightarrow> (Inr (sorted_list_of_set (set chunk_boundaries)), f'))"

subsection \<open>Occurrences of the token\<close>

text \<open>The token \<open>sub\<close> occurs in \<open>s\<close> at offset \<open>k\<close>: it starts there and lies wholly inside.\<close>

definition occurs_at :: "bytes \<Rightarrow> bytes \<Rightarrow> nat \<Rightarrow> bool" where
  "occurs_at s sub k \<longleftrightarrow> k + length sub \<le> length s \<and> take (length sub) (drop k s) = sub"

text \<open>All the offsets at which the token occurs, in ascending order.\<close>

definition occurrences :: "bytes \<Rightarrow> bytes \<Rightarrow> nat list" where
  "occurrences s sub = filter (occurs_at s sub) [0 ..< Suc (length s)]"


text \<open>A file of 8194 equal bytes and a token of 4097 of them. Cut in 2, the interior guess is
  4097 and the token occurs there, but it is one byte longer than a window.\<close>

definition long_token :: bytes where
  "long_token = replicate 4097 CHR ''a''"

definition long_token_file :: binary_io where
  "long_token_file = \<lparr>content = replicate 8194 CHR ''a'', pos = 0, events = []\<rparr>"

subsection \<open>The value one scan stores\<close>

text \<open>The offset that the loop \<open>scan\<close> stores for a boundary, read off a run of \<open>scan\<close> on a
  handle over the bytes \<open>c\<close> at position \<open>p\<close>, with \<open>initial_position = ip\<close>.\<close>

definition scan_value :: "bytes \<Rightarrow> int \<Rightarrow> bytes \<Rightarrow> nat \<Rightarrow> int \<Rightarrow> int" where
  "scan_value sep fs c p ip =
     fst (scan sep fs 0 \<lparr>content = c, pos = p, events = []\<rparr> ip [0]) ! 0"

text \<open>The boundary that an interior guess \<open>g\<close> is moved to, in a file of bytes \<open>c\<close>: line 63 seeks
  to \<open>g\<close> and the scan starts with \<open>initial_position = g\<close>.\<close>

definition boundary_from :: "bytes \<Rightarrow> bytes \<Rightarrow> int \<Rightarrow> int" where
  "boundary_from c sep g = scan_value sep (int (length c)) c (nat g) g"

section \<open>Properties\<close>

subsection \<open>What \<open>bytes_find\<close> returns\<close>

declare scan.simps [simp del]

lemma occurs_at_0: "occurs_at s sub 0 \<longleftrightarrow> take (length sub) s = sub"
proof
  assume "take (length sub) s = sub"
  then have "length sub = min (length s) (length sub)"
    by (metis length_take)
  then show "occurs_at s sub 0"
    using \<open>take (length sub) s = sub\<close> by (simp add: occurs_at_def)
qed (simp add: occurs_at_def)

lemma occurs_at_Cons_Suc: "occurs_at (x # xs) sub (Suc k) = occurs_at xs sub k"
  by (simp add: occurs_at_def)

lemma occurs_at_Nil: "occurs_at [] sub k \<longleftrightarrow> sub = [] \<and> k = 0"
  by (auto simp: occurs_at_def)

lemma find_from_cases:
  "(find_from sub xs i = - 1 \<and> (\<forall>k. \<not> occurs_at xs sub k)) \<or>
   (\<exists>k. find_from sub xs i = int (i + k) \<and> occurs_at xs sub k \<and> (\<forall>j<k. \<not> occurs_at xs sub j))"
proof (induction xs arbitrary: i)
  case Nil
  show ?case
    by (cases "sub = []") (auto simp: occurs_at_Nil)
next
  case (Cons x xs)
  show ?case
  proof (cases "take (length sub) (x # xs) = sub")
    case True
    then have "find_from sub (x # xs) i = int (i + 0)" "occurs_at (x # xs) sub 0"
      by (simp_all add: occurs_at_0)
    then show ?thesis
      by blast
  next
    case False
    then have f: "find_from sub (x # xs) i = find_from sub xs (Suc i)"
      and n0: "\<not> occurs_at (x # xs) sub 0"
      by (simp_all add: occurs_at_0)
    from Cons.IH [of "Suc i"] show ?thesis
    proof (elim disjE conjE exE)
      assume a: "find_from sub xs (Suc i) = - 1" "\<forall>k. \<not> occurs_at xs sub k"
      have "\<not> occurs_at (x # xs) sub k" for k
        using a(2) n0 by (cases k) (simp_all add: occurs_at_Cons_Suc)
      with a(1) f show ?thesis
        by simp
    next
      fix k
      assume a: "find_from sub xs (Suc i) = int (Suc i + k)" "occurs_at xs sub k"
        "\<forall>j<k. \<not> occurs_at xs sub j"
      have "\<not> occurs_at (x # xs) sub j" if "j < Suc k" for j
        using a(3) n0 that by (cases j) (simp_all add: occurs_at_Cons_Suc)
      moreover have "find_from sub (x # xs) i = int (i + Suc k)"
        using a(1) f by simp
      moreover have "occurs_at (x # xs) sub (Suc k)"
        using a(2) by (simp add: occurs_at_Cons_Suc)
      ultimately show ?thesis
        by blast
    qed
  qed
qed

lemma bytes_find_none: "bytes_find s sub = - 1 \<longleftrightarrow> (\<forall>k. \<not> occurs_at s sub k)"
  using find_from_cases [of sub s 0] by (auto simp: bytes_find_def)

lemma bytes_find_first:
  assumes "bytes_find s sub \<noteq> - 1"
  shows "\<exists>k. bytes_find s sub = int k \<and> occurs_at s sub k \<and> (\<forall>j<k. \<not> occurs_at s sub j)"
  using find_from_cases [of sub s 0] assms by (auto simp: bytes_find_def)

lemma bytes_find_eqI:
  assumes "occurs_at s sub k" "\<forall>j<k. \<not> occurs_at s sub j"
  shows "bytes_find s sub = int k"
proof -
  from assms(1) have "bytes_find s sub \<noteq> - 1"
    by (auto simp: bytes_find_none)
  from bytes_find_first [OF this] obtain k' where
    k': "bytes_find s sub = int k'" "occurs_at s sub k'" "\<forall>j<k'. \<not> occurs_at s sub j"
    by blast
  with assms have "k' = k"
    by (meson linorder_neqE_nat)
  with k' show ?thesis by simp
qed

lemma occurs_at_window:
  assumes "p \<le> length s"
  shows "occurs_at (take n (drop p s)) sub k \<longleftrightarrow> occurs_at s sub (p + k) \<and> k + length sub \<le> n"
proof (cases "k + length sub \<le> n")
  case True
  then have "take (length sub) (drop k (take n (drop p s))) = take (length sub) (drop (p + k) s)"
    by (simp add: drop_take min_def add.commute)
  with True assms show ?thesis
    by (auto simp: occurs_at_def)
next
  case False
  then show ?thesis
    by (auto simp: occurs_at_def)
qed


subsection \<open>One scan\<close>

lemma scan_unfold:
  "scan sep fs bi f ip cbs =
    (let mc = take mini_chunk_size (drop (pos f) (content f));
         f' = f\<lparr>pos := pos f + length mc, events := events f @ [Read mini_chunk_size]\<rparr>
     in if mc = [] then (cbs[bi := fs], f')
        else if bytes_find mc sep \<noteq> - 1 then (cbs[bi := ip + bytes_find mc sep], f')
        else scan sep fs bi f' (ip + int mini_chunk_size) cbs)"
  by (subst scan.simps) (simp add: file_read_def Let_def)

lemma scan_result:
  assumes "pos f = nat ip \<or> length (content f) \<le> pos f" and "0 \<le> ip"
  shows "\<exists>v f'. scan sep fs bi f ip cbs = (cbs[bi := v], f') \<and> content f' = content f \<and>
           (v = fs \<or>
            (\<exists>j r. v = ip + int (mini_chunk_size * j + r) \<and> r + length sep \<le> mini_chunk_size \<and>
                   occurs_at (content f) sep (nat ip + mini_chunk_size * j + r)))"
  using assms
proof (induction "length (content f) - pos f" arbitrary: f ip rule: less_induct)
  case less
  define mc where "mc = take mini_chunk_size (drop (pos f) (content f))"
  define f' where "f' = f\<lparr>pos := pos f + length mc, events := events f @ [Read mini_chunk_size]\<rparr>"
  have c': "content f' = content f" and p': "pos f' = pos f + length mc"
    by (simp_all add: f'_def)
  show ?case
  proof (cases "mc = []")
    case True
    then have "scan sep fs bi f ip cbs = (cbs[bi := fs], f')"
      by (subst scan_unfold) (simp add: mc_def f'_def Let_def)
    with c' show ?thesis
      by blast
  next
    case False
    then have lt: "pos f < length (content f)"
      by (cases "pos f < length (content f)") (auto simp: mc_def)
    with less.prems have ip: "pos f = nat ip"
      by auto
    show ?thesis
    proof (cases "bytes_find mc sep = - 1")
      case found: False
      from bytes_find_first [OF this] obtain k where
        k: "bytes_find mc sep = int k" "occurs_at mc sep k"
        by blast
      from k(2) lt have o: "occurs_at (content f) sep (pos f + k)" "k + length sep \<le> mini_chunk_size"
        by (simp_all add: mc_def occurs_at_window)
      have "scan sep fs bi f ip cbs = (cbs[bi := ip + int k], f')"
        using False found k(1) by (subst scan_unfold) (simp add: mc_def f'_def Let_def)
      moreover have "ip + int k = ip + int (mini_chunk_size * 0 + k)"
        by simp
      moreover have "occurs_at (content f) sep (nat ip + mini_chunk_size * 0 + k)"
        using o(1) ip by simp
      ultimately show ?thesis
        using c' o(2) by blast
    next
      case nf: True
      have u: "scan sep fs bi f ip cbs = scan sep fs bi f' (ip + int mini_chunk_size) cbs"
        using False nf by (subst scan_unfold) (simp add: mc_def f'_def Let_def)
      have len: "length mc = min mini_chunk_size (length (content f) - pos f)"
        by (simp add: mc_def min.commute)
      have dec: "length (content f') - pos f' < length (content f) - pos f"
        using lt False c' p' by (cases mc) simp_all
      have inv: "pos f' = nat (ip + int mini_chunk_size) \<or> length (content f') \<le> pos f'"
      proof (cases "mini_chunk_size \<le> length (content f) - pos f")
        case True
        then have "length mc = mini_chunk_size"
          using len by simp
        then show ?thesis
          using p' ip less.prems(2) by (simp add: nat_add_distrib)
      next
        case False
        then have "length mc = length (content f) - pos f"
          using len by simp
        then show ?thesis
          using p' c' lt by simp
      qed
      have nn: "0 \<le> ip + int mini_chunk_size"
        using less.prems(2) by simp
      from less.hyps [OF dec inv nn] obtain v f'' where
        r: "scan sep fs bi f' (ip + int mini_chunk_size) cbs = (cbs[bi := v], f'')"
          "content f'' = content f'"
          "v = fs \<or> (\<exists>j r. v = ip + int mini_chunk_size + int (mini_chunk_size * j + r) \<and>
              r + length sep \<le> mini_chunk_size \<and>
              occurs_at (content f') sep (nat (ip + int mini_chunk_size) + mini_chunk_size * j + r))"
        by blast
      from r(3) have "v = fs \<or> (\<exists>j r. v = ip + int (mini_chunk_size * j + r) \<and>
              r + length sep \<le> mini_chunk_size \<and>
              occurs_at (content f) sep (nat ip + mini_chunk_size * j + r))"
      proof (elim disjE exE conjE)
        fix j r
        assume a: "v = ip + int mini_chunk_size + int (mini_chunk_size * j + r)"
          "r + length sep \<le> mini_chunk_size"
          "occurs_at (content f') sep (nat (ip + int mini_chunk_size) + mini_chunk_size * j + r)"
        have "v = ip + int (mini_chunk_size * Suc j + r)"
          using a(1) by simp
        moreover have "occurs_at (content f) sep (nat ip + mini_chunk_size * Suc j + r)"
          using a(3) c' less.prems(2) by (simp add: nat_add_distrib add.commute add.left_commute)
        ultimately show ?thesis
          using a(2) by blast
      qed simp
      with u r(1,2) c' show ?thesis
        by auto
    qed
  qed
qed


lemma scan_eq_value:
  "\<exists>f'. scan sep fs bi f ip cbs = (cbs[bi := scan_value sep fs (content f) (pos f) ip], f') \<and>
        content f' = content f"
proof (induction "length (content f) - pos f" arbitrary: f ip bi cbs rule: less_induct)
  case less
  define mc where "mc = take mini_chunk_size (drop (pos f) (content f))"
  define f' where "f' = f\<lparr>pos := pos f + length mc, events := events f @ [Read mini_chunk_size]\<rparr>"
  define f0 where "f0 = \<lparr>content = content f, pos = pos f, events = []\<rparr>"
  define f0' where "f0' = f0\<lparr>pos := pos f0 + length mc, events := events f0 @ [Read mini_chunk_size]\<rparr>"
  have c': "content f' = content f" "pos f' = pos f + length mc"
    "content f0' = content f" "pos f0' = pos f + length mc"
    by (simp_all add: f'_def f0'_def f0_def)
  have mc0: "mc = take mini_chunk_size (drop (pos f0) (content f0))"
    by (simp add: mc_def f0_def)
  show ?case
  proof (cases "mc = [] \<or> bytes_find mc sep \<noteq> - 1")
    case True
    then have "scan sep fs bi f ip cbs = (cbs[bi := (if mc = [] then fs else ip + bytes_find mc sep)], f')"
      by (subst scan_unfold) (auto simp: mc_def f'_def Let_def)
    moreover from True have "scan sep fs 0 f0 ip [0] = ([0][0 := (if mc = [] then fs else ip + bytes_find mc sep)], f0')"
      by (subst scan_unfold) (auto simp: mc0 f0'_def Let_def)
    then have "scan_value sep fs (content f) (pos f) ip = (if mc = [] then fs else ip + bytes_find mc sep)"
      by (simp add: scan_value_def f0_def)
    ultimately show ?thesis
      using c'(1) by simp
  next
    case False
    then have ne: "mc \<noteq> []" and nf: "bytes_find mc sep = - 1"
      by simp_all
    from ne have lt: "pos f < length (content f)"
      by (cases "pos f < length (content f)") (auto simp: mc_def)
    have u: "scan sep fs bi f ip cbs = scan sep fs bi f' (ip + int mini_chunk_size) cbs"
      using ne nf by (subst scan_unfold) (simp add: mc_def f'_def Let_def)
    have u0: "scan sep fs 0 f0 ip [0] = scan sep fs 0 f0' (ip + int mini_chunk_size) [0]"
      using ne nf by (subst scan_unfold) (simp add: mc0 f0'_def Let_def)
    have dec: "length (content f') - pos f' < length (content f) - pos f"
      "length (content f0') - pos f0' < length (content f) - pos f"
      using lt ne c' by (cases mc; simp)+
    from less.hyps [OF dec(1), where ip = "ip + int mini_chunk_size" and bi = bi and cbs = cbs] obtain f'' where
      r: "scan sep fs bi f' (ip + int mini_chunk_size) cbs =
            (cbs[bi := scan_value sep fs (content f) (pos f + length mc) (ip + int mini_chunk_size)], f'')"
         "content f'' = content f"
      using c' by auto
    from less.hyps [OF dec(2), where ip = "ip + int mini_chunk_size" and bi = 0 and cbs = "[0]"] obtain g'' where
      "scan sep fs 0 f0' (ip + int mini_chunk_size) [0] =
            ([0][0 := scan_value sep fs (content f) (pos f + length mc) (ip + int mini_chunk_size)], g'')"
      using c' by auto
    with u0 have "scan_value sep fs (content f) (pos f) ip =
        scan_value sep fs (content f) (pos f + length mc) (ip + int mini_chunk_size)"
      by (simp add: scan_value_def f0_def)
    with u r show ?thesis
      by simp
  qed
qed

lemma scan_value_result:
  assumes "0 \<le> g"
  shows "boundary_from c sep g = int (length c) \<or>
         (\<exists>j r. boundary_from c sep g = g + int (mini_chunk_size * j + r) \<and>
                r + length sep \<le> mini_chunk_size \<and>
                occurs_at c sep (nat g + mini_chunk_size * j + r))"
proof -
  define f0 :: binary_io where "f0 = \<lparr>content = c, pos = nat g, events = []\<rparr>"
  have "pos f0 = nat g \<or> length (content f0) \<le> pos f0"
    by (simp add: f0_def)
  from scan_result [OF this assms, of sep "int (length c)" 0 "[0]"] obtain v f' where
    v: "scan sep (int (length c)) 0 f0 g [0] = ([0][0 := v], f')"
      "v = int (length c) \<or>
       (\<exists>j r. v = g + int (mini_chunk_size * j + r) \<and> r + length sep \<le> mini_chunk_size \<and>
              occurs_at (content f0) sep (nat g + mini_chunk_size * j + r))"
    by blast
  from v(1) have "boundary_from c sep g = v"
    by (simp add: boundary_from_def scan_value_def f0_def)
  with v(2) show ?thesis
    by (simp add: f0_def)
qed


subsection \<open>The loop over the interior boundaries and the whole function\<close>

lemma adjust_result:
  assumes "\<forall>bi\<in>set bis. bi < length cbs \<and> 0 \<le> cbs ! bi" and "distinct bis"
  shows "\<exists>cbs' f'. adjust sep fs bis f cbs = (Inr cbs', f') \<and> content f' = content f \<and>
           length cbs' = length cbs \<and>
           (\<forall>i<length cbs. cbs' ! i =
              (if i \<in> set bis then scan_value sep fs (content f) (nat (cbs ! i)) (cbs ! i)
               else cbs ! i))"
  using assms
proof (induction bis arbitrary: f cbs)
  case Nil
  then show ?case by simp
next
  case (Cons bi bis)
  define g where "g = cbs ! bi"
  define f1 where "f1 = f\<lparr>pos := nat g, events := events f @ [SeekSet g]\<rparr>"
  define v where "v = scan_value sep fs (content f) (nat g) g"
  from Cons.prems(1) have bi: "bi < length cbs" "0 \<le> g"
    by (simp_all add: g_def)
  then have sk: "file_seek f g = Inr f1"
    by (simp add: file_seek_def f1_def)
  from scan_eq_value [of sep fs bi f1 g cbs] obtain f2 where
    sc: "scan sep fs bi f1 g cbs = (cbs[bi := v], f2)" "content f2 = content f"
    by (auto simp: f1_def v_def)
  have step: "adjust sep fs (bi # bis) f cbs = adjust sep fs bis f2 (cbs[bi := v])"
    using sk sc(1) by (simp add: g_def [symmetric])
  have other: "(cbs[bi := v]) ! b = cbs ! b" if "b \<in> set bis" for b
    using that Cons.prems(2) by (cases "b = bi") auto
  have pre: "\<forall>b\<in>set bis. b < length (cbs[bi := v]) \<and> 0 \<le> (cbs[bi := v]) ! b"
    using Cons.prems(1) other by simp
  from Cons.prems(2) have "distinct bis"
    by simp
  from Cons.IH [OF pre this, of f2] obtain cbs' f' where
    r: "adjust sep fs bis f2 (cbs[bi := v]) = (Inr cbs', f')" "content f' = content f2"
      "length cbs' = length (cbs[bi := v])"
      "\<forall>i<length (cbs[bi := v]). cbs' ! i =
          (if i \<in> set bis
           then scan_value sep fs (content f2) (nat ((cbs[bi := v]) ! i)) ((cbs[bi := v]) ! i)
           else (cbs[bi := v]) ! i)"
    by blast
  have "cbs' ! i =
      (if i \<in> set (bi # bis) then scan_value sep fs (content f) (nat (cbs ! i)) (cbs ! i)
       else cbs ! i)" if i: "i < length cbs" for i
  proof (cases "i \<in> set bis")
    case True
    with r(4) i other [OF True] sc(2) show ?thesis
      by simp
  next
    case False
    with r(4) i have "cbs' ! i = (cbs[bi := v]) ! i"
      by simp
    with False i bi(1) show ?thesis
      by (cases "i = bi") (simp_all add: v_def g_def)
  qed
  with step r(1,2,3) sc(2) show ?case
    by simp
qed

lemma initial_boundaries_result:
  assumes "1 \<le> n"
  shows "\<exists>cbs. initial_boundaries fs n = Inr cbs \<and> length cbs = nat n + 1 \<and>
           (\<forall>i\<le>nat n. cbs ! i = (if i = nat n then fs else int i * (fs div n)))"
proof -
  define xs where "xs = map (\<lambda>i. i * (fs div n)) [0..n]"
  from assms have len: "length xs = nat n + 1"
    by (simp add: xs_def)
  then have ne: "xs \<noteq> []"
    by auto
  from assms have "n \<noteq> 0"
    by simp
  moreover from assms have "nat (n + 1) - Suc 0 = nat n"
    by simp
  ultimately have ib: "initial_boundaries fs n = Inr (xs[nat n := fs])"
    using ne len assms by (simp add: initial_boundaries_def Let_def xs_def [symmetric])
  have "xs ! i = int i * (fs div n)" if "i \<le> nat n" for i
  proof -
    from that assms have "0 + int i \<le> n"
      by simp
    then have "[0..n] ! i = 0 + int i"
      by (rule nth_upto)
    with that assms show ?thesis
      by (simp add: xs_def)
  qed
  with len ib show ?thesis
    by (auto simp: nth_list_update)
qed


lemma adjusted_boundaries_result:
  assumes "1 \<le> n"
  shows "\<exists>cbs f'. adjusted_boundaries f n (PyBytes sep) = (Inr cbs, f') \<and>
           content f' = content f \<and> length cbs = nat n + 1 \<and>
           (\<forall>i\<le>nat n. cbs ! i =
              (if i = nat n then int (length (content f))
               else if i = 0 then 0
               else boundary_from (content f) sep (int i * (int (length (content f)) div n))))"
proof -
  define fs where "fs = int (length (content f))"
  define f2 where "f2 = (file_seek_end f)\<lparr>events := events (file_seek_end f) @ [Tell]\<rparr>"
  define f3 where "f3 = f2\<lparr>pos := nat 0, events := events f2 @ [SeekSet 0]\<rparr>"
  have t: "file_tell (file_seek_end f) = (fs, f2)"
    by (simp add: file_tell_def file_seek_end_def f2_def fs_def)
  have s: "file_seek f2 0 = Inr f3"
    by (simp add: file_seek_def f3_def)
  have c3: "content f3 = content f"
    by (simp add: f3_def f2_def file_seek_end_def)
  from initial_boundaries_result [OF assms, of fs] obtain cbs0 where
    ib: "initial_boundaries fs n = Inr cbs0" "length cbs0 = nat n + 1"
      "\<forall>i\<le>nat n. cbs0 ! i = (if i = nat n then fs else int i * (fs div n))"
    by blast
  have u: "adjusted_boundaries f n (PyBytes sep) = adjust sep fs [1 ..< nat n] f3 cbs0"
    using t s ib(1,2) by (simp add: adjusted_boundaries_def)
  have "0 \<le> fs div n"
    using assms by (simp add: fs_def pos_imp_zdiv_nonneg_iff)
  then have nn: "0 \<le> int i * (fs div n)" for i
    by simp
  have pre: "\<forall>bi\<in>set [1 ..< nat n]. bi < length cbs0 \<and> 0 \<le> cbs0 ! bi"
    using ib(2,3) nn by simp
  from adjust_result [OF pre, of sep fs f3] obtain cbs f' where
    r: "adjust sep fs [1 ..< nat n] f3 cbs0 = (Inr cbs, f')" "content f' = content f3"
      "length cbs = length cbs0"
      "\<forall>i<length cbs0. cbs ! i =
         (if i \<in> set [1 ..< nat n] then scan_value sep fs (content f3) (nat (cbs0 ! i)) (cbs0 ! i)
          else cbs0 ! i)"
    by auto
  have "cbs ! i = (if i = nat n then fs else if i = 0 then 0
      else boundary_from (content f) sep (int i * (fs div n)))" if "i \<le> nat n" for i
  proof -
    from that ib(2) r(4) have e: "cbs ! i =
        (if i \<in> set [1 ..< nat n] then scan_value sep fs (content f3) (nat (cbs0 ! i)) (cbs0 ! i)
         else cbs0 ! i)"
      by simp
    from that ib(3) have c0: "cbs0 ! i = (if i = nat n then fs else int i * (fs div n))"
      by simp
    show ?thesis
    proof (cases "i \<in> set [1 ..< nat n]")
      case True
      with e c0 c3 show ?thesis
        by (simp add: boundary_from_def fs_def)
    next
      case False
      with that have "i = nat n \<or> i = 0"
        by auto
      with e c0 False show ?thesis
        by auto
    qed
  qed
  with u r(1,2,3) ib(2) c3 show ?thesis
    by (simp add: fs_def)
qed

lemma boundary_from_cases:
  assumes "0 \<le> g"
  shows "boundary_from c sep g = int (length c) \<or>
         (\<exists>k. boundary_from c sep g = g + int k \<and> occurs_at c sep (nat g + k))"
proof -
  from scan_value_result [OF assms, of c sep] show ?thesis
  proof (elim disjE exE conjE)
    fix j r
    assume "boundary_from c sep g = g + int (mini_chunk_size * j + r)"
      and "occurs_at c sep (nat g + mini_chunk_size * j + r)"
    then have "boundary_from c sep g = g + int (mini_chunk_size * j + r) \<and>
        occurs_at c sep (nat g + (mini_chunk_size * j + r))"
      by (simp add: add.assoc)
    then show ?thesis
      by blast
  qed simp
qed

lemma boundary_from_range:
  assumes "0 \<le> g" and "g \<le> int (length c)"
  shows "g \<le> boundary_from c sep g \<and> boundary_from c sep g \<le> int (length c)"
proof -
  from boundary_from_cases [OF assms(1), of c sep] show ?thesis
  proof (elim disjE exE conjE)
    assume "boundary_from c sep g = int (length c)"
    with assms show ?thesis by simp
  next
    fix k
    assume found: "boundary_from c sep g = g + int k" "occurs_at c sep (nat g + k)"
    from found(2) have "nat g + k \<le> length c"
      by (simp add: occurs_at_def)
    then have "int (nat g + k) \<le> int (length c)"
      by (simp only: of_nat_le_iff)
    with assms(1) found(1) show ?thesis
      by simp
  qed
qed

lemma boundary_from_occurs:
  assumes "0 \<le> g" and "boundary_from c sep g \<noteq> int (length c)"
  shows "occurs_at c sep (nat (boundary_from c sep g))"
proof -
  from boundary_from_cases [OF assms(1), of c sep] show ?thesis
  proof (elim disjE exE conjE)
    assume "boundary_from c sep g = int (length c)"
    with assms(2) show ?thesis by simp
  next
    fix k
    assume found: "boundary_from c sep g = g + int k" "occurs_at c sep (nat g + k)"
    from assms(1) found(1) have "nat (boundary_from c sep g) = nat g + k"
      by (simp add: nat_add_distrib)
    with found(2) show ?thesis
      by simp
  qed
qed

lemma interior_guess_range:
  assumes "1 \<le> n" and "0 \<le> fs" and "i \<le> nat n"
  shows "0 \<le> int i * (fs div n) \<and> int i * (fs div n) \<le> fs"
proof -
  from assms have d: "0 \<le> fs div n"
    by (simp add: pos_imp_zdiv_nonneg_iff)
  from assms(1,3) have "int i \<le> n"
    by simp
  then have "int i * (fs div n) \<le> n * (fs div n)"
    using d by (rule mult_right_mono)
  moreover have "n * (fs div n) + fs mod n = fs"
    by simp
  moreover have "0 \<le> fs mod n"
    using assms(1) by simp
  ultimately have "int i * (fs div n) \<le> fs"
    by linarith
  with d show ?thesis
    by simp
qed


lemma adjusted_boundaries_bytes:
  "adjusted_boundaries f n (PyBytes sep) =
     (case initial_boundaries (int (length (content f))) n of
        Inl e \<Rightarrow> (Inl e, f\<lparr>pos := 0, events := events f @ [SeekEnd 0, Tell, SeekSet 0]\<rparr>)
      | Inr cbs \<Rightarrow>
          adjust sep (int (length (content f))) [1 ..< length cbs - 1]
            (f\<lparr>pos := 0, events := events f @ [SeekEnd 0, Tell, SeekSet 0]\<rparr>) cbs)"
  by (cases "initial_boundaries (int (length (content f))) n")
    (simp_all add: adjusted_boundaries_def file_tell_def file_seek_end_def file_seek_def)

lemma scan_events:
  "\<exists>es. events (snd (scan sep fs bi f ip cbs)) = events f @ es"
proof (induction "length (content f) - pos f" arbitrary: f ip rule: less_induct)
  case less
  define mc where "mc = take mini_chunk_size (drop (pos f) (content f))"
  define f' where "f' = f\<lparr>pos := pos f + length mc, events := events f @ [Read mini_chunk_size]\<rparr>"
  show ?case
  proof (cases "mc = [] \<or> bytes_find mc sep \<noteq> - 1")
    case True
    then have "snd (scan sep fs bi f ip cbs) = f'"
      by (subst scan_unfold) (auto simp: mc_def f'_def Let_def)
    then show ?thesis
      by (simp add: f'_def)
  next
    case False
    then have ne: "mc \<noteq> []" and nf: "bytes_find mc sep = - 1"
      by simp_all
    from ne have lt: "pos f < length (content f)"
      by (cases "pos f < length (content f)") (auto simp: mc_def)
    have u: "scan sep fs bi f ip cbs = scan sep fs bi f' (ip + int mini_chunk_size) cbs"
      using ne nf by (subst scan_unfold) (simp add: mc_def f'_def Let_def)
    have "length (content f') - pos f' < length (content f) - pos f"
      using lt ne by (cases mc) (simp_all add: f'_def)
    from less.hyps [OF this, of "ip + int mini_chunk_size"] obtain es where
      "events (snd (scan sep fs bi f' (ip + int mini_chunk_size) cbs)) = events f' @ es"
      by blast
    with u show ?thesis
      by (simp add: f'_def)
  qed
qed

lemma adjust_events:
  "\<exists>es. events (snd (adjust sep fs bis f cbs)) = events f @ es"
proof (induction bis arbitrary: f cbs)
  case Nil
  show ?case by simp
next
  case (Cons bi bis)
  show ?case
  proof (cases "cbs ! bi < 0")
    case True
    then show ?thesis
      by (simp add: file_seek_def)
  next
    case False
    define f1 where "f1 = f\<lparr>pos := nat (cbs ! bi), events := events f @ [SeekSet (cbs ! bi)]\<rparr>"
    obtain cbs' f2 where sc: "scan sep fs bi f1 (cbs ! bi) cbs = (cbs', f2)"
      by (cases "scan sep fs bi f1 (cbs ! bi) cbs")
    from scan_events [of sep fs bi f1 "cbs ! bi" cbs] sc obtain es where
      e2: "events f2 = events f1 @ es"
      by auto
    from Cons.IH [of f2 cbs'] obtain es' where
      "events (snd (adjust sep fs bis f2 cbs')) = events f2 @ es'"
      by blast
    moreover have "adjust sep fs (bi # bis) f cbs = adjust sep fs bis f2 cbs'"
      using False sc by (simp add: file_seek_def f1_def)
    ultimately show ?thesis
      using e2 by (simp add: f1_def)
  qed
qed

lemma find_chunk_boundaries_events:
  "\<exists>es. events (snd (find_chunk_boundaries f n (PyBytes sep))) =
     events f @ [SeekEnd 0, Tell, SeekSet 0] @ es"
proof -
  define f3 where "f3 = f\<lparr>pos := 0, events := events f @ [SeekEnd 0, Tell, SeekSet 0]\<rparr>"
  have "\<exists>es. events (snd (adjusted_boundaries f n (PyBytes sep))) = events f3 @ es"
  proof (cases "initial_boundaries (int (length (content f))) n")
    case (Inl e)
    then show ?thesis
      by (simp add: adjusted_boundaries_bytes f3_def)
  next
    case (Inr cbs)
    then show ?thesis
      using adjust_events [of sep "int (length (content f))" "[1 ..< length cbs - 1]" f3 cbs]
      by (simp add: adjusted_boundaries_bytes f3_def)
  qed
  moreover have "snd (find_chunk_boundaries f n (PyBytes sep)) =
      snd (adjusted_boundaries f n (PyBytes sep))"
    by (simp add: find_chunk_boundaries_def split: prod.splits sum.splits)
  ultimately show ?thesis
    by (simp add: f3_def)
qed

lemma find_chunk_boundaries_result:
  assumes "1 \<le> n"
  shows "\<exists>cbs f'. adjusted_boundaries f n (PyBytes sep) = (Inr cbs, f') \<and>
           find_chunk_boundaries f n (PyBytes sep) = (Inr (sorted_list_of_set (set cbs)), f') \<and>
           content f' = content f \<and> length cbs = nat n + 1 \<and>
           (\<forall>i\<le>nat n. cbs ! i =
              (if i = nat n then int (length (content f))
               else if i = 0 then 0
               else boundary_from (content f) sep (int i * (int (length (content f)) div n))))"
  using adjusted_boundaries_result [OF assms, of f sep]
  by (auto simp: find_chunk_boundaries_def)


subsection \<open>The returned list\<close>

lemma sorted_hd_le:
  fixes xs :: "int list"
  shows "sorted xs \<Longrightarrow> x \<in> set xs \<Longrightarrow> hd xs \<le> x"
  by (cases xs) auto

lemma sorted_le_last:
  fixes xs :: "int list"
  shows "sorted xs \<Longrightarrow> x \<in> set xs \<Longrightarrow> x \<le> last xs"
  by (induction xs) auto

lemma sorted_list_of_set_ends:
  fixes A :: "int set"
  assumes "finite A" and "lo \<in> A" and "hi \<in> A" and "\<forall>x\<in>A. lo \<le> x \<and> x \<le> hi"
  shows "hd (sorted_list_of_set A) = lo \<and> last (sorted_list_of_set A) = hi"
proof -
  define xs where "xs = sorted_list_of_set A"
  from assms(1) have s: "sorted xs" "set xs = A"
    by (simp_all add: xs_def)
  with assms(2) have ne: "xs \<noteq> []"
    by auto
  then have "hd xs \<in> A" "last xs \<in> A"
    using s(2) by (metis hd_in_set, metis last_in_set)
  with assms(4) have "lo \<le> hd xs" "last xs \<le> hi"
    by simp_all
  moreover have "hd xs \<le> lo" "hi \<le> last xs"
    using s assms(2,3) by (simp_all add: sorted_hd_le sorted_le_last)
  ultimately show ?thesis
    by (simp add: xs_def)
qed

lemma boundaries_summary:
  assumes "1 \<le> n"
  shows "\<exists>cbs f'. adjusted_boundaries f n (PyBytes sep) = (Inr cbs, f') \<and>
           find_chunk_boundaries f n (PyBytes sep) = (Inr (sorted_list_of_set (set cbs)), f') \<and>
           length cbs = nat n + 1 \<and> 0 \<in> set cbs \<and> int (length (content f)) \<in> set cbs \<and>
           (\<forall>x\<in>set cbs. 0 \<le> x \<and> x \<le> int (length (content f)) \<and>
              (x = 0 \<or> x = int (length (content f)) \<or> occurs_at (content f) sep (nat x)))"
proof -
  define fs where "fs = int (length (content f))"
  from find_chunk_boundaries_result [OF assms, of f sep] obtain cbs f' where
    r: "adjusted_boundaries f n (PyBytes sep) = (Inr cbs, f')"
      "find_chunk_boundaries f n (PyBytes sep) = (Inr (sorted_list_of_set (set cbs)), f')"
      "length cbs = nat n + 1"
      "\<forall>i\<le>nat n. cbs ! i =
          (if i = nat n then fs else if i = 0 then 0
           else boundary_from (content f) sep (int i * (fs div n)))"
    unfolding fs_def by blast
  from assms have n0: "nat n \<noteq> 0"
    by simp
  from r(3,4) n0 have "cbs ! 0 = 0" "cbs ! nat n = fs"
    by simp_all
  with r(3) have ends: "0 \<in> set cbs" "fs \<in> set cbs"
    by (metis nth_mem zero_less_Suc Suc_eq_plus1, metis nth_mem lessI Suc_eq_plus1)
  have "0 \<le> x \<and> x \<le> fs \<and> (x = 0 \<or> x = fs \<or> occurs_at (content f) sep (nat x))"
    if "x \<in> set cbs" for x
  proof -
    from that obtain i where "i < length cbs" "x = cbs ! i"
      by (auto simp: in_set_conv_nth)
    with r(3) have i: "i \<le> nat n" "x = cbs ! i"
      by simp_all
    define g where "g = int i * (fs div n)"
    have g: "0 \<le> g" "g \<le> fs"
      using interior_guess_range [OF assms _ i(1), of fs] by (simp_all add: g_def fs_def)
    from i r(4) have "x = fs \<or> x = 0 \<or> x = boundary_from (content f) sep g"
      by (auto simp: g_def)
    then show ?thesis
    proof (elim disjE)
      assume x: "x = boundary_from (content f) sep g"
      from boundary_from_range [of g "content f" sep] g
      have "g \<le> x" "x \<le> fs"
        by (simp_all add: x fs_def)
      moreover have "x = fs \<or> occurs_at (content f) sep (nat x)"
        using boundary_from_occurs [OF g(1), of "content f" sep] by (auto simp: x fs_def)
      ultimately show ?thesis
        using g(1) by auto
    qed (simp_all add: fs_def)
  qed
  with r(1,2,3) ends show ?thesis
    unfolding fs_def by blast
qed


lemma initial_boundaries_no_chunks:
  assumes "n < 1"
  shows "\<exists>e. initial_boundaries fs n = Inl e"
proof (cases "n = 0")
  case True
  then show ?thesis
    by (simp add: initial_boundaries_def)
next
  case False
  with assms have "[0..n] = []"
    by simp
  then show ?thesis
    by (simp add: initial_boundaries_def)
qed

subsection \<open>Where one interior guess ends up\<close>

lemma set_occurrences: "set (occurrences s sub) = {k. occurs_at s sub k}"
proof -
  have "k < Suc (length s)" if "occurs_at s sub k" for k
    using that by (simp add: occurs_at_def)
  moreover have "set (occurrences s sub) = {k. k < Suc (length s) \<and> occurs_at s sub k}"
    unfolding occurrences_def set_filter set_upt by auto
  ultimately show ?thesis
    by blast
qed

lemma boundary_from_first_window:
  assumes "0 \<le> g" and "nat g < length c"
    and "bytes_find (take mini_chunk_size (drop (nat g) c)) sep \<noteq> - 1"
  shows "boundary_from c sep g = g + bytes_find (take mini_chunk_size (drop (nat g) c)) sep"
proof -
  from assms(2) have "take mini_chunk_size (drop (nat g) c) \<noteq> []"
    by (simp add: mini_chunk_size_def)
  with assms(3) show ?thesis
    unfolding boundary_from_def scan_value_def
    by (subst scan_unfold) (simp add: Let_def)
qed

lemma boundary_from_past_end:
  assumes "length c \<le> nat g"
  shows "boundary_from c sep g = int (length c)"
  using assms unfolding boundary_from_def scan_value_def
  by (subst scan_unfold) (simp add: Let_def)

lemma boundary_from_found:
  assumes "0 \<le> g" and "nat g < length c" and "occurs_at c sep (nat g + k)"
    and "k + length sep \<le> mini_chunk_size" and "\<forall>j<k. \<not> occurs_at c sep (nat g + j)"
  shows "boundary_from c sep g = g + int k"
proof -
  define w where "w = take mini_chunk_size (drop (nat g) c)"
  from assms(2) have le: "nat g \<le> length c"
    by simp
  have "occurs_at w sep k"
    using assms(3,4) by (simp add: w_def occurs_at_window [OF le])
  moreover have "\<forall>j<k. \<not> occurs_at w sep j"
    using assms(5) by (simp add: w_def occurs_at_window [OF le])
  ultimately have "bytes_find w sep = int k"
    by (rule bytes_find_eqI)
  with boundary_from_first_window [OF assms(1,2), of sep] show ?thesis
    by (simp add: w_def)
qed

lemma boundary_from_no_fit:
  assumes "0 \<le> g"
    and "\<forall>j r. occurs_at c sep (nat g + mini_chunk_size * j + r) \<longrightarrow>
           \<not> r + length sep \<le> mini_chunk_size"
  shows "boundary_from c sep g = int (length c)"
  using scan_value_result [OF assms(1), of c sep] assms(2) by blast

lemma interior_boundary:
  assumes "1 \<le> n" and "0 < i" and "i < nat n"
  shows "\<exists>cbs f'. adjusted_boundaries f n (PyBytes sep) = (Inr cbs, f') \<and>
           find_chunk_boundaries f n (PyBytes sep) = (Inr (sorted_list_of_set (set cbs)), f') \<and>
           i < length cbs \<and>
           cbs ! i = boundary_from (content f) sep (int i * (int (length (content f)) div n))"
proof -
  from find_chunk_boundaries_result [OF assms(1), of f sep] obtain cbs f' where
    r: "adjusted_boundaries f n (PyBytes sep) = (Inr cbs, f')"
      "find_chunk_boundaries f n (PyBytes sep) = (Inr (sorted_list_of_set (set cbs)), f')"
      "length cbs = nat n + 1"
      "\<forall>i\<le>nat n. cbs ! i =
          (if i = nat n then int (length (content f))
           else if i = 0 then 0
           else boundary_from (content f) sep (int i * (int (length (content f)) div n)))"
    by blast
  from r(4) assms(2,3) have "cbs ! i =
      boundary_from (content f) sep (int i * (int (length (content f)) div n))"
    by simp
  with r(1,2,3) assms(3) show ?thesis
    by simp
qed

lemma scan_found_at_zero:
  assumes "0 \<le> g" and "pos h = nat g" and "occurs_at (content h) sep (nat g)"
    and "bytes_find (take mini_chunk_size (drop (nat g) (content h))) sep = 0"
  shows "scan sep (int (length (content h))) bi h g xs =
           (xs[bi := g],
            h\<lparr>pos := nat g + length (take mini_chunk_size (drop (nat g) (content h))),
              events := events h @ [Read mini_chunk_size]\<rparr>)"
proof (cases "take mini_chunk_size (drop (nat g) (content h)) = []")
  case True
  then have "length (content h) \<le> nat g"
    by (simp add: mini_chunk_size_def)
  moreover from assms(3) have "nat g \<le> length (content h)"
    by (simp add: occurs_at_def)
  ultimately have "int (length (content h)) = g"
    using assms(1) by simp
  with True assms(2) show ?thesis
    by (subst scan_unfold) (simp add: Let_def)
next
  case False
  with assms(2,4) show ?thesis
    by (subst scan_unfold) (simp add: Let_def)
qed

lemma boundary_from_found_at_zero:
  assumes "0 \<le> g" and "occurs_at c sep (nat g)"
    and "bytes_find (take mini_chunk_size (drop (nat g) c)) sep = 0"
  shows "boundary_from c sep g = g"
  using scan_found_at_zero [of g "\<lparr>content = c, pos = nat g, events = []\<rparr>" sep 0 "[0]"] assms
  by (simp add: boundary_from_def scan_value_def)

lemma occurs_at_guess_found_at_zero:
  assumes "occurs_at c sep p" and "length sep \<le> mini_chunk_size"
  shows "bytes_find (take mini_chunk_size (drop p c)) sep = 0"
proof -
  from assms(1) have "p \<le> length c"
    by (simp add: occurs_at_def)
  from occurs_at_window [OF this, of mini_chunk_size sep 0] assms
  have "occurs_at (take mini_chunk_size (drop p c)) sep 0"
    by simp
  then have "bytes_find (take mini_chunk_size (drop p c)) sep = int 0"
    by (rule bytes_find_eqI) simp
  then show ?thesis
    by simp
qed

subsection \<open>Windows do not overlap\<close>










section \<open>The claims\<close>

subsection \<open>The empty file\<close>

lemma empty_file_boundaries:
  assumes "content f = []" and "1 \<le> n"
  shows "\<exists>f'. adjusted_boundaries f n (PyBytes sep) = (Inr (replicate (nat n + 1) 0), f') \<and>
              find_chunk_boundaries f n (PyBytes sep) = (Inr [0], f')"
proof -
  from find_chunk_boundaries_result [OF assms(2), of f sep] obtain cbs f' where
    r: "adjusted_boundaries f n (PyBytes sep) = (Inr cbs, f')"
      "find_chunk_boundaries f n (PyBytes sep) = (Inr (sorted_list_of_set (set cbs)), f')"
      "length cbs = nat n + 1"
      "\<forall>i\<le>nat n. cbs ! i =
          (if i = nat n then int (length (content f))
           else if i = 0 then 0
           else boundary_from (content f) sep (int i * (int (length (content f)) div n)))"
    by blast
  have b0: "boundary_from [] sep 0 = 0"
    using boundary_from_range [of 0 "[]" sep] by simp
  have "cbs ! i = 0" if "i < length cbs" for i
    using that r(3,4) assms(1) b0 by simp
  then have all0: "\<forall>y\<in>set cbs. y = 0"
    by (auto simp: in_set_conv_nth)
  then have "replicate (length cbs) 0 = cbs"
    by (rule replicate_length_same)
  with r(3) have c: "replicate (nat n + 1) 0 = cbs"
    by simp
  from all0 r(3) have "set cbs = {0}"
    by (cases cbs) auto
  then have "sorted_list_of_set (set cbs) = [0]"
    by simp
  with r(1,2) show ?thesis
    unfolding c by simp
qed

text \<open>
  \<^bold>\<open>C9.\<close> On an empty file, for every requested number of chunks from 1 on and every bytes
  token, all the guesses and all the adjusted boundaries are 0, and the function returns the
  one-element list \<open>[0]\<close>.
\<close>

theorem empty_file_returns_single_zero:
  assumes "content f = []" and "1 \<le> n"
  shows "initial_boundaries (int (length (content f))) n = Inr (replicate (nat n + 1) 0) \<and>
         (\<exists>f'. adjusted_boundaries f n (PyBytes sep) = (Inr (replicate (nat n + 1) 0), f') \<and>
               find_chunk_boundaries f n (PyBytes sep) = (Inr [0], f'))"
proof -
  from initial_boundaries_result [OF assms(2), of 0] obtain cbs where
    ib: "initial_boundaries 0 n = Inr cbs" "length cbs = nat n + 1"
      "\<forall>i\<le>nat n. cbs ! i = (if i = nat n then 0 else int i * (0 div n))"
    by blast
  have "cbs ! i = 0" if "i < length cbs" for i
    using that ib(2,3) by simp
  then have "\<forall>y\<in>set cbs. y = 0"
    by (auto simp: in_set_conv_nth)
  then have "replicate (length cbs) 0 = cbs"
    by (rule replicate_length_same)
  with ib(1,2) assms(1) have "initial_boundaries (int (length (content f))) n =
      Inr (replicate (nat n + 1) 0)"
    by simp
  with empty_file_boundaries [OF assms, of sep] show ?thesis
    by simp
qed

theorem empty_file_returns_single_zero_witness:
  "content \<lparr>content = [], pos = 0, events = []\<rparr> = [] \<and> (1::int) \<le> 3 \<and>
   fst (find_chunk_boundaries \<lparr>content = [], pos = 0, events = []\<rparr> 3 (PyBytes ''X'')) = Inr [0] \<and>
   fst (adjusted_boundaries \<lparr>content = [], pos = 0, events = []\<rparr> 3 (PyBytes ''X'')) = Inr [0, 0, 0, 0]"
proof -
  have h: "content \<lparr>content = [], pos = 0, events = []\<rparr> = []" "(1::int) \<le> 3"
    by simp_all
  from empty_file_returns_single_zero [OF h, of "''X''"] show ?thesis
    by (auto simp: numeral_eq_Suc)
qed


subsection \<open>One chunk\<close>

lemma single_chunk_boundaries:
  "adjusted_boundaries f 1 (PyBytes sep) =
     (Inr [0, int (length (content f))],
      f\<lparr>pos := 0, events := events f @ [SeekEnd 0, Tell, SeekSet 0]\<rparr>)"
proof -
  have "[0..1] = [0, 1::int]"
    by (simp add: upto.simps)
  then have "initial_boundaries (int (length (content f))) 1 = Inr [0, int (length (content f))]"
    by (simp add: initial_boundaries_def)
  then show ?thesis
    by (simp add: adjusted_boundaries_bytes)
qed

text \<open>
  \<^bold>\<open>C6, as amended.\<close> For every non-empty file and every non-empty bytes token, a request for
  one chunk returns exactly \<open>[0, file_size]\<close>; no boundary is adjusted, the handle is only
  measured (seek to the end, tell, seek to 0) and never read.
\<close>

theorem single_chunk_whole_file:
  assumes "0 < length (content f)" and "sep \<noteq> []"
  shows "find_chunk_boundaries f 1 (PyBytes sep) =
           (Inr [0, int (length (content f))],
            f\<lparr>pos := 0, events := events f @ [SeekEnd 0, Tell, SeekSet 0]\<rparr>)"
  using assms(1) by (simp add: find_chunk_boundaries_def single_chunk_boundaries)

theorem single_chunk_whole_file_witness:
  "0 < length (content \<lparr>content = ''abc'', pos = 2, events = []\<rparr>) \<and> ''X'' \<noteq> [] \<and>
   find_chunk_boundaries \<lparr>content = ''abc'', pos = 2, events = []\<rparr> 1 (PyBytes ''X'') =
     (Inr [0, 3], \<lparr>content = ''abc'', pos = 0, events = [SeekEnd 0, Tell, SeekSet 0]\<rparr>)"
  using single_chunk_whole_file [of "\<lparr>content = ''abc'', pos = 2, events = []\<rparr>" "''X''"]
  by simp

text \<open>The claim as written fails on the empty file: one chunk of it gives \<open>[0]\<close>, which has one
  element and is not \<open>[0, file_size] = [0, 0]\<close>.\<close>

theorem single_chunk_empty_file_counterexample:
  "fst (find_chunk_boundaries \<lparr>content = [], pos = 0, events = []\<rparr> 1 (PyBytes ''X'')) = Inr [0] \<and>
   fst (find_chunk_boundaries \<lparr>content = [], pos = 0, events = []\<rparr> 1 (PyBytes ''X'')) \<noteq>
     Inr [0, int (length (content \<lparr>content = [], pos = 0, events = []\<rparr>))]"
  by (simp add: find_chunk_boundaries_def single_chunk_boundaries)

subsection \<open>The check of the token\<close>

text \<open>
  \<^bold>\<open>C2, as amended.\<close> When the token is not a bytes object the assertion of line 20 fails before
  anything is done with the handle: the handle is returned as it was, with no event added.
  An empty bytes token passes the assertion: for a count of at least 1 the function measures
  the file and returns a list of boundaries.
\<close>

theorem not_bytes_fails_before_io:
  "(\<not> isinstance_bytes tok \<longrightarrow> find_chunk_boundaries f n tok = (Inl AssertionError, f)) \<and>
   (1 \<le> n \<longrightarrow>
      (\<exists>bs f' es. find_chunk_boundaries f n (PyBytes []) = (Inr bs, f') \<and>
         events f' = events f @ [SeekEnd 0, Tell, SeekSet 0] @ es))"
proof (intro conjI impI)
  assume "\<not> isinstance_bytes tok"
  then show "find_chunk_boundaries f n tok = (Inl AssertionError, f)"
    by (cases tok) (simp_all add: find_chunk_boundaries_def adjusted_boundaries_def)
next
  assume "1 \<le> n"
  from find_chunk_boundaries_result [OF this, of f "[]"] obtain bs f' where
    "find_chunk_boundaries f n (PyBytes []) = (Inr bs, f')"
    by blast
  with find_chunk_boundaries_events [of f n "[]"]
  show "\<exists>bs f' es. find_chunk_boundaries f n (PyBytes []) = (Inr bs, f') \<and>
      events f' = events f @ [SeekEnd 0, Tell, SeekSet 0] @ es"
    by auto
qed

theorem not_bytes_fails_before_io_witness:
  "\<not> isinstance_bytes (PyStr ''<|endoftext|>'') \<and> (1::int) \<le> 2 \<and>
   find_chunk_boundaries \<lparr>content = ''abcd'', pos = 1, events = []\<rparr> 2 (PyStr ''<|endoftext|>'') =
     (Inl AssertionError, \<lparr>content = ''abcd'', pos = 1, events = []\<rparr>) \<and>
   (\<exists>bs f' es. find_chunk_boundaries \<lparr>content = ''abcd'', pos = 1, events = []\<rparr> 2 (PyBytes []) =
      (Inr bs, f') \<and> events f' = [SeekEnd 0, Tell, SeekSet 0] @ es)"
  using not_bytes_fails_before_io
    [of "PyStr ''<|endoftext|>''" "\<lparr>content = ''abcd'', pos = 1, events = []\<rparr>" 2]
  by simp

text \<open>The claim as written fails on the empty bytes token: no error is raised, the handle is
  sought, told and read, and boundaries are returned.\<close>

theorem empty_separator_counterexample:
  "find_chunk_boundaries \<lparr>content = ''abcd'', pos = 0, events = []\<rparr> 2 (PyBytes []) =
     (Inr [0, 2, 4],
      \<lparr>content = ''abcd'', pos = 4,
        events = [SeekEnd 0, Tell, SeekSet 0, SeekSet 2, Read 4096]\<rparr>) \<and>
   fst (find_chunk_boundaries \<lparr>content = ''abcd'', pos = 0, events = []\<rparr> 2 (PyBytes [])) \<noteq>
     Inl AssertionError"
  by code_simp


subsection \<open>Shape of the returned list\<close>

text \<open>
  \<^bold>\<open>C1.\<close> For a non-empty file, a requested number of chunks of at least 1 and a non-empty bytes
  token, the function returns a list that is strictly ascending (so without duplicates),
  starts with 0 and ends with the file size.
\<close>

theorem boundaries_strictly_ascending_from_0_to_file_size:
  assumes "0 < length (content f)" and "1 \<le> n" and "sep \<noteq> []"
  shows "\<exists>bs f'. find_chunk_boundaries f n (PyBytes sep) = (Inr bs, f') \<and>
           sorted_wrt (<) bs \<and> distinct bs \<and> hd bs = 0 \<and> last bs = int (length (content f))"
proof -
  from boundaries_summary [OF assms(2), of f sep] obtain cbs f' where
    r: "find_chunk_boundaries f n (PyBytes sep) = (Inr (sorted_list_of_set (set cbs)), f')"
      "0 \<in> set cbs" "int (length (content f)) \<in> set cbs"
      "\<forall>x\<in>set cbs. 0 \<le> x \<and> x \<le> int (length (content f)) \<and>
          (x = 0 \<or> x = int (length (content f)) \<or> occurs_at (content f) sep (nat x))"
    by blast
  from r(4) have "\<forall>x\<in>set cbs. 0 \<le> x \<and> x \<le> int (length (content f))"
    by blast
  with r(2,3) have "hd (sorted_list_of_set (set cbs)) = 0 \<and>
      last (sorted_list_of_set (set cbs)) = int (length (content f))"
    by (intro sorted_list_of_set_ends) simp_all
  moreover have "sorted_wrt (<) (sorted_list_of_set (set cbs))"
    "distinct (sorted_list_of_set (set cbs))"
    by simp_all
  ultimately show ?thesis
    using r(1) by simp
qed

theorem boundaries_strictly_ascending_from_0_to_file_size_witness:
  "0 < length (content \<lparr>content = ''ab<>cd<>ef'', pos = 0, events = []\<rparr>) \<and> (1::int) \<le> 3 \<and>
   ''<>'' \<noteq> [] \<and>
   (\<exists>bs f'. find_chunk_boundaries \<lparr>content = ''ab<>cd<>ef'', pos = 0, events = []\<rparr> 3
        (PyBytes ''<>'') = (Inr bs, f') \<and>
      bs = [0, 6, 10] \<and> sorted_wrt (<) bs \<and> distinct bs \<and> hd bs = 0 \<and> last bs = 10)"
proof -
  have e: "fst (find_chunk_boundaries \<lparr>content = ''ab<>cd<>ef'', pos = 0, events = []\<rparr> 3
      (PyBytes ''<>'')) = Inr [0, 6, 10]"
    by code_simp
  from boundaries_strictly_ascending_from_0_to_file_size
    [of "\<lparr>content = ''ab<>cd<>ef'', pos = 0, events = []\<rparr>" 3 "''<>''"] e
  show ?thesis
    by auto
qed

text \<open>
  \<^bold>\<open>C7.\<close> For a non-empty file, a requested number of chunks \<open>n\<close> of at least 1 and a non-empty
  bytes token, the returned list has at least 2 and at most \<open>n + 1\<close> elements.
\<close>

theorem boundaries_length_between_2_and_chunks_plus_1:
  assumes "0 < length (content f)" and "1 \<le> n" and "sep \<noteq> []"
  shows "\<exists>bs f'. find_chunk_boundaries f n (PyBytes sep) = (Inr bs, f') \<and>
           2 \<le> length bs \<and> int (length bs) \<le> n + 1"
proof -
  from boundaries_summary [OF assms(2), of f sep] obtain cbs f' where
    r: "find_chunk_boundaries f n (PyBytes sep) = (Inr (sorted_list_of_set (set cbs)), f')"
      "length cbs = nat n + 1" "0 \<in> set cbs" "int (length (content f)) \<in> set cbs"
    by blast
  have len: "length (sorted_list_of_set (set cbs)) = card (set cbs)"
    by simp
  have "card (set cbs) \<le> length cbs"
    by (rule card_length)
  with r(2) assms(2) have up: "int (card (set cbs)) \<le> n + 1"
    by simp
  from assms(1) have "card {0, int (length (content f))} = 2"
    by simp
  moreover have "card {0, int (length (content f))} \<le> card (set cbs)"
    using r(3,4) by (intro card_mono) simp_all
  ultimately have "2 \<le> card (set cbs)"
    by simp
  with up len r(1) show ?thesis
    by simp
qed

theorem boundaries_length_between_2_and_chunks_plus_1_witness:
  "0 < length (content \<lparr>content = ''ab<>cd<>ef'', pos = 0, events = []\<rparr>) \<and> (1::int) \<le> 4 \<and>
   ''<>'' \<noteq> [] \<and>
   (\<exists>bs f'. find_chunk_boundaries \<lparr>content = ''ab<>cd<>ef'', pos = 0, events = []\<rparr> 4
        (PyBytes ''<>'') = (Inr bs, f') \<and>
      bs = [0, 2, 6, 10] \<and> 2 \<le> length bs \<and> int (length bs) \<le> 4 + 1)"
proof -
  have e: "fst (find_chunk_boundaries \<lparr>content = ''ab<>cd<>ef'', pos = 0, events = []\<rparr> 4
      (PyBytes ''<>'')) = Inr [0, 2, 6, 10]"
    by code_simp
  from boundaries_length_between_2_and_chunks_plus_1
    [of "\<lparr>content = ''ab<>cd<>ef'', pos = 0, events = []\<rparr>" 4 "''<>''"] e
  show ?thesis
    by auto
qed

text \<open>
  \<^bold>\<open>C4.\<close> For a requested number of chunks of at least 1 and a non-empty bytes token, every
  returned offset lies between 0 and the file size, and every returned offset other than 0
  and the file size is the start of an occurrence of the token in the file.
\<close>

theorem interior_boundaries_at_separator_occurrences:
  assumes "1 \<le> n" and "sep \<noteq> []"
  shows "\<exists>bs f'. find_chunk_boundaries f n (PyBytes sep) = (Inr bs, f') \<and>
           list_all (\<lambda>b. 0 \<le> b \<and> b \<le> int (length (content f)) \<and>
              (b = 0 \<or> b = int (length (content f)) \<or> occurs_at (content f) sep (nat b))) bs"
proof -
  from boundaries_summary [OF assms(1), of f sep] obtain cbs f' where
    r: "find_chunk_boundaries f n (PyBytes sep) = (Inr (sorted_list_of_set (set cbs)), f')"
      "\<forall>x\<in>set cbs. 0 \<le> x \<and> x \<le> int (length (content f)) \<and>
          (x = 0 \<or> x = int (length (content f)) \<or> occurs_at (content f) sep (nat x))"
    by blast
  have "set (sorted_list_of_set (set cbs)) = set cbs"
    by simp
  with r show ?thesis
    by (simp add: list_all_iff)
qed

theorem interior_boundaries_at_separator_occurrences_witness:
  "(1::int) \<le> 4 \<and> ''<>'' \<noteq> [] \<and>
   (\<exists>bs f'. find_chunk_boundaries \<lparr>content = ''ab<>cd<>ef'', pos = 0, events = []\<rparr> 4
        (PyBytes ''<>'') = (Inr bs, f') \<and> bs = [0, 2, 6, 10] \<and>
      list_all (\<lambda>b. 0 \<le> b \<and> b \<le> 10 \<and>
         (b = 0 \<or> b = 10 \<or> occurs_at ''ab<>cd<>ef'' ''<>'' (nat b))) bs) \<and>
   occurs_at ''ab<>cd<>ef'' ''<>'' 2 \<and> occurs_at ''ab<>cd<>ef'' ''<>'' 6"
proof -
  have e: "fst (find_chunk_boundaries \<lparr>content = ''ab<>cd<>ef'', pos = 0, events = []\<rparr> 4
      (PyBytes ''<>'')) = Inr [0, 2, 6, 10]"
    by code_simp
  have o: "occurs_at ''ab<>cd<>ef'' ''<>'' 2" "occurs_at ''ab<>cd<>ef'' ''<>'' 6"
    by (simp_all add: occurs_at_def)
  from interior_boundaries_at_separator_occurrences
    [of 4 "''<>''" "\<lparr>content = ''ab<>cd<>ef'', pos = 0, events = []\<rparr>"] e o
  show ?thesis
    by auto
qed


subsection \<open>Determinism\<close>

text \<open>
  \<^bold>\<open>C10.\<close> The returned boundaries depend only on the bytes of the file, the requested number
  of chunks and the token: two runs over the same contents give the same result, wherever
  the handle stood before each run and whatever was done with it (in particular a second
  run on the handle as the first run left it).
\<close>

theorem same_contents_same_boundaries:
  assumes "content f = content f'"
  shows "fst (find_chunk_boundaries f n tok) = fst (find_chunk_boundaries f' n tok)"
proof (cases tok)
  case (PyBytes sep)
  show ?thesis
  proof (cases "1 \<le> n")
    case True
    from find_chunk_boundaries_result [OF True, of f sep] obtain cbs g where
      r: "find_chunk_boundaries f n (PyBytes sep) = (Inr (sorted_list_of_set (set cbs)), g)"
        "length cbs = nat n + 1"
        "\<forall>i\<le>nat n. cbs ! i =
            (if i = nat n then int (length (content f))
             else if i = 0 then 0
             else boundary_from (content f) sep (int i * (int (length (content f)) div n)))"
      by blast
    from find_chunk_boundaries_result [OF True, of f' sep] obtain cbs' g' where
      r': "find_chunk_boundaries f' n (PyBytes sep) = (Inr (sorted_list_of_set (set cbs')), g')"
        "length cbs' = nat n + 1"
        "\<forall>i\<le>nat n. cbs' ! i =
            (if i = nat n then int (length (content f'))
             else if i = 0 then 0
             else boundary_from (content f') sep (int i * (int (length (content f')) div n)))"
      by blast
    have "cbs = cbs'"
    proof (rule nth_equalityI)
      show "length cbs = length cbs'"
        using r(2) r'(2) by simp
    next
      fix i
      assume "i < length cbs"
      with r(2) have "i \<le> nat n"
        by simp
      with r(3) r'(3) assms show "cbs ! i = cbs' ! i"
        by simp
    qed
    with r(1) r'(1) PyBytes show ?thesis
      by simp
  next
    case False
    then have "n < 1"
      by simp
    from initial_boundaries_no_chunks [OF this, of "int (length (content f))"] obtain e where
      "initial_boundaries (int (length (content f))) n = Inl e"
      by blast
    with assms PyBytes show ?thesis
      by (simp add: find_chunk_boundaries_def adjusted_boundaries_bytes)
  qed
qed (simp_all add: find_chunk_boundaries_def adjusted_boundaries_def)

theorem same_contents_same_boundaries_witness:
  "content \<lparr>content = ''ab<>cd<>ef'', pos = 0, events = []\<rparr> =
     content \<lparr>content = ''ab<>cd<>ef'', pos = 10,
       events = [SeekEnd 0, Tell, SeekSet 0, SeekSet 3, Read 4096, SeekSet 6, Read 4096]\<rparr> \<and>
   snd (find_chunk_boundaries \<lparr>content = ''ab<>cd<>ef'', pos = 0, events = []\<rparr> 3
     (PyBytes ''<>'')) =
     \<lparr>content = ''ab<>cd<>ef'', pos = 10,
       events = [SeekEnd 0, Tell, SeekSet 0, SeekSet 3, Read 4096, SeekSet 6, Read 4096]\<rparr> \<and>
   fst (find_chunk_boundaries \<lparr>content = ''ab<>cd<>ef'', pos = 0, events = []\<rparr> 3
     (PyBytes ''<>'')) =
     fst (find_chunk_boundaries \<lparr>content = ''ab<>cd<>ef'', pos = 10,
       events = [SeekEnd 0, Tell, SeekSet 0, SeekSet 3, Read 4096, SeekSet 6, Read 4096]\<rparr> 3
     (PyBytes ''<>''))"
proof -
  have e: "snd (find_chunk_boundaries \<lparr>content = ''ab<>cd<>ef'', pos = 0, events = []\<rparr> 3
     (PyBytes ''<>'')) =
     \<lparr>content = ''ab<>cd<>ef'', pos = 10,
       events = [SeekEnd 0, Tell, SeekSet 0, SeekSet 3, Read 4096, SeekSet 6, Read 4096]\<rparr>"
    by code_simp
  from same_contents_same_boundaries
    [of "\<lparr>content = ''ab<>cd<>ef'', pos = 0, events = []\<rparr>"
      "\<lparr>content = ''ab<>cd<>ef'', pos = 10,
        events = [SeekEnd 0, Tell, SeekSet 0, SeekSet 3, Read 4096, SeekSet 6, Read 4096]\<rparr>"
      3 "PyBytes ''<>''"] e
  show ?thesis
    by simp
qed


subsection \<open>The scenario of 100 bytes\<close>

text \<open>
  \<^bold>\<open>C3.\<close> A file of exactly 100 bytes in which the one-byte token \<open>X\<close> occurs at the offsets 24
  and 51 and nowhere else, cut into 4 chunks: the initial guesses are \<open>[0, 25, 50, 75, 100]\<close>
  and the function returns exactly \<open>[0, 51, 100]\<close>.
\<close>

theorem hundred_bytes_four_chunks:
  assumes "length (content f) = 100" and "occurrences (content f) ''X'' = [24, 51]"
  shows "initial_boundaries (int (length (content f))) 4 = Inr [0, 25, 50, 75, 100] \<and>
         fst (find_chunk_boundaries f 4 (PyBytes ''X'')) = Inr [0, 51, 100]"
proof -
  define c where "c = content f"
  have occ: "occurs_at c ''X'' k \<longleftrightarrow> k = 24 \<or> k = 51" for k
    using set_occurrences [of c "''X''"] assms(2) by (auto simp: c_def)
  have len: "length c = 100"
    using assms(1) by (simp add: c_def)
  have "[0..4] = [0, 1, 2, 3, 4::int]"
    by (simp add: upto.simps)
  then have ib: "initial_boundaries (int (length (content f))) 4 = Inr [0, 25, 50, 75, 100]"
    using assms(1) by (simp add: initial_boundaries_def)
  have b25: "boundary_from c ''X'' 25 = 25 + int 26"
    by (rule boundary_from_found) (auto simp: len occ mini_chunk_size_def)
  have b50: "boundary_from c ''X'' 50 = 50 + int 1"
    by (rule boundary_from_found) (auto simp: len occ mini_chunk_size_def)
  have b75: "boundary_from c ''X'' 75 = int (length c)"
    by (rule boundary_from_no_fit) (auto simp: occ)
  have "(1::int) \<le> 4"
    by simp
  from find_chunk_boundaries_result [OF this, of f "''X''"] obtain cbs f' where
    r: "find_chunk_boundaries f 4 (PyBytes ''X'') = (Inr (sorted_list_of_set (set cbs)), f')"
      "length cbs = nat 4 + 1"
      "\<forall>i\<le>nat 4. cbs ! i =
          (if i = nat 4 then int (length (content f))
           else if i = 0 then 0
           else boundary_from (content f) ''X'' (int i * (int (length (content f)) div 4)))"
    by blast
  from r(2) obtain x0 x1 x2 x3 x4 where cbs: "cbs = [x0, x1, x2, x3, x4]"
    by (auto simp: numeral_eq_Suc length_Suc_conv)
  from r(3) have "cbs ! 0 = 0" "cbs ! 1 = boundary_from c ''X'' 25"
    "cbs ! 2 = boundary_from c ''X'' 50" "cbs ! 3 = boundary_from c ''X'' 75" "cbs ! 4 = 100"
    using len by (simp_all add: c_def)
  with b25 b50 b75 len have "cbs = [0, 51, 51, 100, 100]"
    by (simp add: cbs)
  then have "sorted_list_of_set (set cbs) = [0, 51, 100]"
    by (simp add: sorted_list_of_set_sort_remdups)
  with r(1) ib show ?thesis
    by simp
qed

theorem hundred_bytes_four_chunks_witness:
  "length (content \<lparr>content = replicate 24 CHR ''a'' @ ''X'' @ replicate 26 CHR ''b'' @ ''X'' @
      replicate 48 CHR ''c'', pos = 0, events = []\<rparr>) = 100 \<and>
   occurrences (content \<lparr>content = replicate 24 CHR ''a'' @ ''X'' @ replicate 26 CHR ''b'' @ ''X'' @
      replicate 48 CHR ''c'', pos = 0, events = []\<rparr>) ''X'' = [24, 51] \<and>
   fst (find_chunk_boundaries \<lparr>content = replicate 24 CHR ''a'' @ ''X'' @ replicate 26 CHR ''b'' @
      ''X'' @ replicate 48 CHR ''c'', pos = 0, events = []\<rparr> 4 (PyBytes ''X'')) = Inr [0, 51, 100]"
proof -
  have h: "length (content \<lparr>content = replicate 24 CHR ''a'' @ ''X'' @ replicate 26 CHR ''b'' @ ''X'' @
      replicate 48 CHR ''c'', pos = 0, events = []\<rparr>) = 100"
    "occurrences (content \<lparr>content = replicate 24 CHR ''a'' @ ''X'' @ replicate 26 CHR ''b'' @ ''X'' @
      replicate 48 CHR ''c'', pos = 0, events = []\<rparr>) ''X'' = [24, 51]"
    by code_simp+
  from hundred_bytes_four_chunks [OF h] h show ?thesis
    by simp
qed


subsection \<open>A token at the guess itself\<close>

text \<open>
  \<^bold>\<open>C8, as amended.\<close> When the token is at most one window (4096 bytes) long and occurs at the
  offset of an interior guess, the search of the first window finds it at relative offset 0,
  that \<open>found_at = 0\<close> counts as a match, the boundary is set to the guess itself, and the scan
  stops after this one read.
\<close>

theorem found_at_zero_keeps_the_guess:
  assumes "1 \<le> n" and "0 < i" and "i < nat n"
    and "g = int i * (int (length (content f)) div n)"
    and "occurs_at (content f) sep (nat g)"
    and "length sep \<le> mini_chunk_size"
  shows "bytes_find (take mini_chunk_size (drop (nat g) (content f))) sep = 0 \<and>
         (\<exists>cbs bs f'. adjusted_boundaries f n (PyBytes sep) = (Inr cbs, f') \<and>
            find_chunk_boundaries f n (PyBytes sep) = (Inr bs, f') \<and>
            cbs ! i = g \<and> g \<in> set bs) \<and>
         (\<forall>h bi xs. pos h = nat g \<and> content h = content f \<longrightarrow>
            scan sep (int (length (content f))) bi h g xs =
              (xs[bi := g],
               h\<lparr>pos := nat g + length (take mini_chunk_size (drop (nat g) (content f))),
                 events := events h @ [Read mini_chunk_size]\<rparr>))"
proof -
  from assms(1,4) have g0: "0 \<le> g"
    by (simp add: pos_imp_zdiv_nonneg_iff)
  have z: "bytes_find (take mini_chunk_size (drop (nat g) (content f))) sep = 0"
    using assms(5,6) by (rule occurs_at_guess_found_at_zero)
  from interior_boundary [OF assms(1,2,3), of f sep] obtain cbs f' where
    r: "adjusted_boundaries f n (PyBytes sep) = (Inr cbs, f')"
      "find_chunk_boundaries f n (PyBytes sep) = (Inr (sorted_list_of_set (set cbs)), f')"
      "i < length cbs" "cbs ! i = boundary_from (content f) sep g"
    unfolding assms(4) by blast
  from r(4) boundary_from_found_at_zero [OF g0 assms(5) z] have "cbs ! i = g"
    by simp
  moreover from this r(3) have "g \<in> set (sorted_list_of_set (set cbs))"
    by (auto simp: in_set_conv_nth)
  moreover have "scan sep (int (length (content f))) bi h g xs =
      (xs[bi := g],
       h\<lparr>pos := nat g + length (take mini_chunk_size (drop (nat g) (content f))),
         events := events h @ [Read mini_chunk_size]\<rparr>)"
    if "pos h = nat g \<and> content h = content f" for h bi xs
    using scan_found_at_zero [of g h sep bi xs] that g0 assms(5) z by simp
  ultimately show ?thesis
    using r(1,2) z by blast
qed

theorem found_at_zero_keeps_the_guess_witness:
  "(1::int) \<le> 2 \<and> (0::nat) < 1 \<and> (1::nat) < nat 2 \<and>
   (5::int) = int 1 * (int (length (content \<lparr>content = ''abcde<>fgh'', pos = 0, events = []\<rparr>)) div 2) \<and>
   occurs_at (content \<lparr>content = ''abcde<>fgh'', pos = 0, events = []\<rparr>) ''<>'' (nat 5) \<and>
   length ''<>'' \<le> mini_chunk_size \<and>
   bytes_find (take mini_chunk_size
     (drop (nat 5) (content \<lparr>content = ''abcde<>fgh'', pos = 0, events = []\<rparr>))) ''<>'' = 0 \<and>
   (\<exists>cbs bs f'. adjusted_boundaries \<lparr>content = ''abcde<>fgh'', pos = 0, events = []\<rparr> 2
        (PyBytes ''<>'') = (Inr cbs, f') \<and>
      find_chunk_boundaries \<lparr>content = ''abcde<>fgh'', pos = 0, events = []\<rparr> 2
        (PyBytes ''<>'') = (Inr bs, f') \<and>
      cbs ! 1 = 5 \<and> 5 \<in> set bs \<and> bs = [0, 5, 10])"
proof -
  have h: "(1::int) \<le> 2" "(0::nat) < 1" "(1::nat) < nat 2"
    "(5::int) = int 1 * (int (length (content \<lparr>content = ''abcde<>fgh'', pos = 0, events = []\<rparr>)) div 2)"
    by simp_all
  have o: "occurs_at (content \<lparr>content = ''abcde<>fgh'', pos = 0, events = []\<rparr>) ''<>'' (nat 5)"
    by code_simp
  have l: "length ''<>'' \<le> mini_chunk_size"
    by (simp add: mini_chunk_size_def)
  have e: "fst (find_chunk_boundaries \<lparr>content = ''abcde<>fgh'', pos = 0, events = []\<rparr> 2
      (PyBytes ''<>'')) = Inr [0, 5, 10]"
    by code_simp
  note t = found_at_zero_keeps_the_guess [OF h o l]
  from t [THEN conjunct1] have z: "bytes_find (take mini_chunk_size
     (drop (nat 5) (content \<lparr>content = ''abcde<>fgh'', pos = 0, events = []\<rparr>))) ''<>'' = 0" .
  from t [THEN conjunct2, THEN conjunct1] obtain cbs bs f' where
    r: "adjusted_boundaries \<lparr>content = ''abcde<>fgh'', pos = 0, events = []\<rparr> 2
          (PyBytes ''<>'') = (Inr cbs, f')"
       "find_chunk_boundaries \<lparr>content = ''abcde<>fgh'', pos = 0, events = []\<rparr> 2
          (PyBytes ''<>'') = (Inr bs, f')"
       "cbs ! 1 = 5" "5 \<in> set bs"
    by blast
  from r(2) e have "bs = [0, 5, 10]"
    by simp
  with r have "\<exists>cbs bs f'. adjusted_boundaries \<lparr>content = ''abcde<>fgh'', pos = 0, events = []\<rparr> 2
        (PyBytes ''<>'') = (Inr cbs, f') \<and>
      find_chunk_boundaries \<lparr>content = ''abcde<>fgh'', pos = 0, events = []\<rparr> 2
        (PyBytes ''<>'') = (Inr bs, f') \<and>
      cbs ! 1 = 5 \<and> 5 \<in> set bs \<and> bs = [0, 5, 10]"
    by blast
  with h o l z show ?thesis
    by (intro conjI)
qed

text \<open>The claim as written fails for a token longer than a window: 4097 equal bytes occur at
  the interior guess 4097 of a file of 8194 of them, yet no window of 4096 bytes holds the
  token, the search of the first window returns \<open>-1\<close>, and the boundary goes to the file size
  instead of staying at the guess.\<close>

theorem long_token_at_guess_counterexample:
  "(4097::int) = int 1 * (int (length (content long_token_file)) div 2) \<and>
   occurs_at (content long_token_file) long_token (nat 4097) \<and>
   bytes_find (take mini_chunk_size (drop (nat 4097) (content long_token_file))) long_token = - 1 \<and>
   fst (adjusted_boundaries long_token_file 2 (PyBytes long_token)) = Inr [0, 8194, 8194] \<and>
   fst (find_chunk_boundaries long_token_file 2 (PyBytes long_token)) = Inr [0, 8194]"
proof -
  have c: "content long_token_file = replicate 8194 CHR ''a''"
    by (simp add: long_token_file_def)
  have len: "length (content long_token_file) = 8194" "length long_token = 4097"
    by (simp_all add: c long_token_def)
  have g: "(4097::int) = int 1 * (int (length (content long_token_file)) div 2)"
    by (simp add: len)
  have "take 4097 (drop 4097 (replicate 8194 CHR ''a'')) = replicate 4097 CHR ''a''"
    by (simp only: drop_replicate take_replicate) simp
  then have o: "occurs_at (content long_token_file) long_token (nat 4097)"
    by (simp add: occurs_at_def len) (simp add: c long_token_def)
  have nofit: "\<not> r + length long_token \<le> mini_chunk_size" for r
    by (simp add: len mini_chunk_size_def)
  have "\<not> occurs_at (take mini_chunk_size (drop (nat 4097) (content long_token_file))) long_token k"
    for k
    using nofit [of k] by (simp add: occurs_at_window len)
  then have nf: "bytes_find (take mini_chunk_size (drop (nat 4097) (content long_token_file)))
      long_token = - 1"
    by (simp add: bytes_find_none)
  have b: "boundary_from (content long_token_file) long_token 4097 = 8194"
    using boundary_from_no_fit [of 4097 "content long_token_file" long_token] nofit
    by (simp add: len)
  have "(1::int) \<le> 2"
    by simp
  from find_chunk_boundaries_result [OF this, of long_token_file long_token] obtain cbs f' where
    r: "adjusted_boundaries long_token_file 2 (PyBytes long_token) = (Inr cbs, f')"
      "find_chunk_boundaries long_token_file 2 (PyBytes long_token) =
         (Inr (sorted_list_of_set (set cbs)), f')"
      "length cbs = nat 2 + 1"
      "\<forall>i\<le>nat 2. cbs ! i =
          (if i = nat 2 then int (length (content long_token_file))
           else if i = 0 then 0
           else boundary_from (content long_token_file) long_token
                  (int i * (int (length (content long_token_file)) div 2)))"
    by blast
  from r(3) obtain x0 x1 x2 where cbs: "cbs = [x0, x1, x2]"
    by (auto simp: numeral_eq_Suc length_Suc_conv)
  from r(4) have "cbs ! 0 = 0"
    "cbs ! 1 = boundary_from (content long_token_file) long_token 4097" "cbs ! 2 = 8194"
    unfolding len by simp_all
  with b have l: "cbs = [0, 8194, 8194]"
    by (simp add: cbs)
  then have "sorted_list_of_set (set cbs) = [0, 8194]"
    by (simp add: sorted_list_of_set_sort_remdups)
  with r(1,2) l have "fst (adjusted_boundaries long_token_file 2 (PyBytes long_token)) =
      Inr [0, 8194, 8194]"
    "fst (find_chunk_boundaries long_token_file 2 (PyBytes long_token)) = Inr [0, 8194]"
    by simp_all
  with g o nf show ?thesis
    by (intro conjI)
qed


subsection \<open>A token across the end of a window\<close>





end
